theory Spec2Isabelle
  imports Main
begin

section \<open>JavaScript values, arrays and the constants of the game\<close>

text \<open>
  The engine of \<^verbatim>\<open>scripts/main.js\<close>: the playfield \<^verbatim>\<open>board\<close>, the falling
  \<^verbatim>\<open>piece\<close> at \<^verbatim>\<open>(px, py)\<close>, the \<^verbatim>\<open>score\<close> and the interval \<^verbatim>\<open>loop\<close>.
  Canvas, DOM and audio calls are left out, except that every call of \<^verbatim>\<open>draw()\<close> and
  every \<^verbatim>\<open>alert\<close> is counted in the state.

  Reading a property of \<^verbatim>\<open>undefined\<close> raises a \<^verbatim>\<open>TypeError\<close>; reading an array beyond
  its length gives \<^verbatim>\<open>undefined\<close>, which is falsy.
\<close>

datatype error = TypeError

datatype jsval = Num int | Undefined

fun truthy :: "jsval \<Rightarrow> bool" where
  "truthy (Num n) = (n \<noteq> 0)"
| "truthy Undefined = False"

text \<open>
  A piece is a dense array of dense rows: it is built from the literals of \<^verbatim>\<open>SHAPES\<close>,
  \<^verbatim>\<open>slice\<close> and \<^verbatim>\<open>map\<close> only. A board row can get holes when \<^verbatim>\<open>merge\<close> writes beyond
  its length (JavaScript grows the array), so a board cell is \<open>None\<close> for a hole.
\<close>

type_synonym shape = "jsval list list"
type_synonym row = "jsval option list"
type_synonym board = "row list"

definition COLS :: nat where
  "COLS = 10"

definition ROWS :: nat where
  "ROWS = 20"

text \<open>\<^verbatim>\<open>r[i]\<close> on a row of a piece.\<close>

definition elem :: "jsval list \<Rightarrow> nat \<Rightarrow> jsval" where
  "elem r i = (if i < length r then r ! i else Undefined)"

text \<open>\<^verbatim>\<open>board[y]\<close>: \<open>None\<close> stands for \<^verbatim>\<open>undefined\<close>.\<close>

definition row_at :: "board \<Rightarrow> int \<Rightarrow> row option" where
  "row_at b y = (if 0 \<le> y \<and> y < int (length b) then Some (b ! nat y) else None)"

text \<open>\<^verbatim>\<open>row[x]\<close> for an index \<open>x \<ge> 0\<close>; a hole reads as \<^verbatim>\<open>undefined\<close>.\<close>

definition cell_at :: "row \<Rightarrow> nat \<Rightarrow> jsval" where
  "cell_at r x = (if x < length r then (case r ! x of None \<Rightarrow> Undefined | Some v \<Rightarrow> v) else Undefined)"

text \<open>
  \<^verbatim>\<open>row[x] = v\<close>. Beyond the length the array grows and the gap is holes. A negative
  index sets a property that is no element of the array: length and elements stay, and
  nothing below reads a negative index (\<^verbatim>\<open>collide\<close> tests \<^verbatim>\<open>x < 0\<close> first).
\<close>

definition write_cell :: "row \<Rightarrow> int \<Rightarrow> jsval \<Rightarrow> row" where
  "write_cell r x v =
     (if x < 0 then r
      else if nat x < length r then r[nat x := Some v]
      else r @ replicate (nat x - length r) None @ [Some v])"

text \<open>\<^verbatim>\<open>board[y][x] = 1\<close>: \<^verbatim>\<open>board[y]\<close> must be a row.\<close>

definition set_cell :: "board \<Rightarrow> int \<Rightarrow> int \<Rightarrow> error + board" where
  "set_cell b y x =
     (case row_at b y of
        None \<Rightarrow> Inl TypeError
      | Some r \<Rightarrow> Inr (b[nat y := write_cell r x (Num 1)]))"

text \<open>\<^verbatim>\<open>Array.prototype.some\<close>: the callback is not called on holes.\<close>

fun some_js :: "(jsval \<Rightarrow> bool) \<Rightarrow> row \<Rightarrow> bool" where
  "some_js f [] = False"
| "some_js f (None # vs) = some_js f vs"
| "some_js f (Some v # vs) = (f v \<or> some_js f vs)"

section \<open>Shapes\<close>

datatype name = I_shape | O_shape | L_shape | J_shape | T_shape | S_shape | Z_shape

fun SHAPES :: "name \<Rightarrow> shape" where
  "SHAPES I_shape = [[Num 1, Num 1, Num 1, Num 1]]"
| "SHAPES O_shape = [[Num 1, Num 1], [Num 1, Num 1]]"
| "SHAPES L_shape = [[Num 1, Num 0], [Num 1, Num 0], [Num 1, Num 1]]"
| "SHAPES J_shape = [[Num 0, Num 1], [Num 0, Num 1], [Num 1, Num 1]]"
| "SHAPES T_shape = [[Num 1, Num 1, Num 1], [Num 0, Num 1, Num 0]]"
| "SHAPES S_shape = [[Num 0, Num 1, Num 1], [Num 1, Num 1, Num 0]]"
| "SHAPES Z_shape = [[Num 1, Num 1, Num 0], [Num 0, Num 1, Num 1]]"

text \<open>
  \<^verbatim>\<open>newBoard\<close>, and \<^verbatim>\<open>newPiece\<close> with the key that \<^verbatim>\<open>Math.random\<close> selects as its
  argument. The copy made by \<^verbatim>\<open>shape.map(r => r.slice())\<close> is the same value.
\<close>

definition newBoard :: board where
  "newBoard = replicate ROWS (replicate COLS (Some (Num 0)))"

definition newPiece :: "name \<Rightarrow> shape" where
  "newPiece k = map (\<lambda>r. r) (SHAPES k)"

text \<open>
  \<^verbatim>\<open>rotate(p) = p[0].map((_, i) => p.map(r => r[i])).reverse()\<close>. On the empty array
  \<^verbatim>\<open>p[0]\<close> is \<^verbatim>\<open>undefined\<close> and the call of \<^verbatim>\<open>map\<close> raises.
\<close>

definition rotate :: "shape \<Rightarrow> error + shape" where
  "rotate p =
     (case p of
        [] \<Rightarrow> Inl TypeError
      | p0 # _ \<Rightarrow> Inr (rev (map (\<lambda>i. map (\<lambda>r. elem r i) p) [0..<length p0])))"

section \<open>Collision, merge and line clearing\<close>

text \<open>
  \<^verbatim>\<open>collide(nx, ny, np)\<close> scans the rows of \<open>np\<close> from the top and each row from the left.
  The inner loop is \<open>collide_cells\<close> with \<open>x = nx + c\<close>, the outer loop \<open>collide_rows\<close>
  with \<open>y = ny + r\<close>. The disjunction is evaluated left to right, so \<^verbatim>\<open>board[y][x]\<close> is
  read only when \<open>0 \<le> x < COLS\<close> and \<open>y < ROWS\<close>.
\<close>

fun collide_cells :: "board \<Rightarrow> int \<Rightarrow> int \<Rightarrow> jsval list \<Rightarrow> error + bool" where
  "collide_cells b x y [] = Inr False"
| "collide_cells b x y (v # vs) =
     (if truthy v then
        (if x < 0 \<or> x \<ge> int COLS \<or> y \<ge> int ROWS then Inr True
         else (case row_at b y of
                 None \<Rightarrow> Inl TypeError
               | Some r \<Rightarrow>
                   if truthy (cell_at r (nat x)) then Inr True
                   else collide_cells b (x + 1) y vs))
      else collide_cells b (x + 1) y vs)"

fun collide_rows :: "board \<Rightarrow> int \<Rightarrow> int \<Rightarrow> shape \<Rightarrow> error + bool" where
  "collide_rows b nx y [] = Inr False"
| "collide_rows b nx y (r # rs) =
     (case collide_cells b nx y r of
        Inl e \<Rightarrow> Inl e
      | Inr True \<Rightarrow> Inr True
      | Inr False \<Rightarrow> collide_rows b nx (y + 1) rs)"

definition collide :: "board \<Rightarrow> int \<Rightarrow> int \<Rightarrow> shape \<Rightarrow> error + bool" where
  "collide b nx ny np = collide_rows b nx ny np"

text \<open>\<^verbatim>\<open>merge\<close>: the two nested \<^verbatim>\<open>forEach\<close> loops, writing 1 for every filled cell.\<close>

fun merge_cells :: "board \<Rightarrow> int \<Rightarrow> int \<Rightarrow> jsval list \<Rightarrow> error + board" where
  "merge_cells b x y [] = Inr b"
| "merge_cells b x y (v # vs) =
     (if truthy v then
        (case set_cell b y x of
           Inl e \<Rightarrow> Inl e
         | Inr b' \<Rightarrow> merge_cells b' (x + 1) y vs)
      else merge_cells b (x + 1) y vs)"

fun merge_rows :: "board \<Rightarrow> int \<Rightarrow> int \<Rightarrow> shape \<Rightarrow> error + board" where
  "merge_rows b nx y [] = Inr b"
| "merge_rows b nx y (r # rs) =
     (case merge_cells b nx y r of
        Inl e \<Rightarrow> Inl e
      | Inr b' \<Rightarrow> merge_rows b' nx (y + 1) rs)"

text \<open>
  \<^verbatim>\<open>clearLines\<close>: the filter keeps the rows with a falsy cell; the \<^verbatim>\<open>while\<close> loop
  (\<open>refill\<close>) puts an empty row on top and counts, as long as rows are missing.
\<close>

definition keep_row :: "row \<Rightarrow> bool" where
  "keep_row r = some_js (\<lambda>v. \<not> truthy v) r"

function refill :: "board \<Rightarrow> nat \<Rightarrow> board \<times> nat" where
  "refill b cleared =
     (if length b < ROWS then refill (replicate COLS (Some (Num 0)) # b) (cleared + 1)
      else (b, cleared))"
  by pat_completeness auto
termination
  by (relation "measure (\<lambda>(b, cleared). ROWS - length b)") auto

declare refill.simps [simp del]

section \<open>The state and its operations\<close>

text \<open>
  \<open>loop\<close> says whether the interval that \<^verbatim>\<open>start\<close> stored in \<^verbatim>\<open>loop\<close> still calls
  \<^verbatim>\<open>tick\<close> (the phase Running) or was cleared by \<^verbatim>\<open>gameOver\<close>. \<open>draws\<close> counts the
  calls of \<^verbatim>\<open>draw()\<close> and \<open>alerts\<close> lists the scores shown by \<^verbatim>\<open>alert\<close>, both since
  the last \<^verbatim>\<open>start()\<close>.
\<close>

datatype timer = Scheduled | Cleared

record state =
  board :: board
  piece :: shape
  px :: int
  py :: int
  score :: int
  loop :: timer
  draws :: nat
  alerts :: "int list"

definition draw :: "state \<Rightarrow> state" where
  "draw s = s\<lparr>draws := Suc (draws s)\<rparr>"

definition merge :: "state \<Rightarrow> error + state" where
  "merge s =
     (case merge_rows (board s) (px s) (py s) (piece s) of
        Inl e \<Rightarrow> Inl e
      | Inr b \<Rightarrow> Inr (s\<lparr>board := b\<rparr>))"

definition clearLines :: "state \<Rightarrow> state" where
  "clearLines s =
     (case refill (filter keep_row (board s)) 0 of
        (b, cleared) \<Rightarrow> s\<lparr>board := b, score := score s + int cleared * 10\<rparr>)"

definition resetPiece :: "name \<Rightarrow> state \<Rightarrow> state" where
  "resetPiece k s = s\<lparr>piece := newPiece k, px := int (COLS div 2) - 1, py := 0\<rparr>"

definition gameOver :: "state \<Rightarrow> state" where
  "gameOver s = s\<lparr>loop := Cleared, alerts := alerts s @ [score s]\<rparr>"

text \<open>
  \<^verbatim>\<open>tick\<close>; \<open>k\<close> is the key drawn by \<^verbatim>\<open>newPiece\<close> when the piece locks. The branch that
  ends the game returns \<^verbatim>\<open>gameOver()\<close> and does not reach \<^verbatim>\<open>draw()\<close>.
\<close>

definition tick :: "name \<Rightarrow> state \<Rightarrow> error + state" where
  "tick k s =
     (case collide (board s) (px s) (py s + 1) (piece s) of
        Inl e \<Rightarrow> Inl e
      | Inr False \<Rightarrow> Inr (draw (s\<lparr>py := py s + 1\<rparr>))
      | Inr True \<Rightarrow>
          (case merge s of
             Inl e \<Rightarrow> Inl e
           | Inr s1 \<Rightarrow>
               (let s2 = resetPiece k (clearLines s1) in
                case collide (board s2) (px s2) (py s2) (piece s2) of
                  Inl e \<Rightarrow> Inl e
                | Inr True \<Rightarrow> Inr (gameOver s2)
                | Inr False \<Rightarrow> Inr (draw s2))))"

definition start :: "name \<Rightarrow> state" where
  "start k =
     draw (resetPiece k
       \<lparr>board = newBoard, piece = [], px = 0, py = 0, score = 0,
        loop = Scheduled, draws = 0, alerts = []\<rparr>)"

text \<open>\<^verbatim>\<open>window.onkeydown\<close>: one key per event, then \<^verbatim>\<open>draw()\<close>.\<close>

datatype key = ArrowLeft | ArrowRight | ArrowDown | ArrowUp | OtherKey

fun onkeydown :: "key \<Rightarrow> state \<Rightarrow> error + state" where
  "onkeydown ArrowLeft s =
     (case collide (board s) (px s - 1) (py s) (piece s) of
        Inl e \<Rightarrow> Inl e
      | Inr hit \<Rightarrow> Inr (draw (if hit then s else s\<lparr>px := px s - 1\<rparr>)))"
| "onkeydown ArrowRight s =
     (case collide (board s) (px s + 1) (py s) (piece s) of
        Inl e \<Rightarrow> Inl e
      | Inr hit \<Rightarrow> Inr (draw (if hit then s else s\<lparr>px := px s + 1\<rparr>)))"
| "onkeydown ArrowDown s =
     (case collide (board s) (px s) (py s + 1) (piece s) of
        Inl e \<Rightarrow> Inl e
      | Inr hit \<Rightarrow> Inr (draw (if hit then s else s\<lparr>py := py s + 1\<rparr>)))"
| "onkeydown ArrowUp s =
     (case rotate (piece s) of
        Inl e \<Rightarrow> Inl e
      | Inr np \<Rightarrow>
          (case collide (board s) (px s) (py s) np of
             Inl e \<Rightarrow> Inl e
           | Inr hit \<Rightarrow> Inr (draw (if hit then s else s\<lparr>piece := np\<rparr>))))"
| "onkeydown OtherKey s = Inr (draw s)"

section \<open>Vocabulary of the properties\<close>

text \<open>
  \<open>filled np r c\<close>: the piece \<open>np\<close> has a filled cell at local row \<open>r\<close>, column \<open>c\<close>; at
  the anchor \<open>(nx, ny)\<close> it maps to \<open>x = nx + c\<close>, \<open>y = ny + r\<close>. \<open>occupied b x y\<close>: the
  board has a row \<open>y\<close> and its cell \<open>x\<close> is truthy. \<open>free b x y\<close>: the cell \<open>(x, y)\<close>
  passes every test of \<^verbatim>\<open>collide\<close> and the board has the row.
\<close>

definition filled :: "shape \<Rightarrow> nat \<Rightarrow> nat \<Rightarrow> bool" where
  "filled np r c = (r < length np \<and> c < length (np ! r) \<and> truthy (np ! r ! c))"

definition occupied :: "board \<Rightarrow> int \<Rightarrow> int \<Rightarrow> bool" where
  "occupied b x y =
     (case row_at b y of
        None \<Rightarrow> False
      | Some r \<Rightarrow> 0 \<le> x \<and> truthy (cell_at r (nat x)))"

definition free :: "board \<Rightarrow> int \<Rightarrow> int \<Rightarrow> bool" where
  "free b x y =
     (0 \<le> x \<and> x < int COLS \<and> y < int ROWS \<and> row_at b y \<noteq> None \<and> \<not> occupied b x y)"

text \<open>
  A well-formed board has \<open>ROWS\<close> rows of \<open>COLS\<close> cells and no holes. A row is full when
  every cell is truthy.
\<close>

definition empty_row :: row where
  "empty_row = replicate COLS (Some (Num 0))"

definition dense_row :: "row \<Rightarrow> bool" where
  "dense_row r = (length r = COLS \<and> list_all (\<lambda>v. v \<noteq> None) r)"

definition board_ok :: "board \<Rightarrow> bool" where
  "board_ok b = (length b = ROWS \<and> list_all dense_row b)"

definition full_row :: "row \<Rightarrow> bool" where
  "full_row r = list_all (\<lambda>v. case v of None \<Rightarrow> False | Some w \<Rightarrow> truthy w) r"

text \<open>
  \<open>rect p r c\<close>: the layout \<open>p\<close> has \<open>r\<close> rows of \<open>c\<close> cells each. \<open>and_then\<close> chains
  calls that may raise. \<open>turned p c\<close> is the result of \<^verbatim>\<open>rotate\<close> on a layout whose rows
  all have \<open>c\<close> cells, where no read is out of range.
\<close>

definition rect :: "shape \<Rightarrow> nat \<Rightarrow> nat \<Rightarrow> bool" where
  "rect p r c = (length p = r \<and> list_all (\<lambda>row. length row = c) p)"

definition and_then :: "error + 'a \<Rightarrow> ('a \<Rightarrow> error + 'b) \<Rightarrow> error + 'b" where
  "and_then m f = (case m of Inl e \<Rightarrow> Inl e | Inr a \<Rightarrow> f a)"

definition turned :: "shape \<Rightarrow> nat \<Rightarrow> shape" where
  "turned p c = rev (map (\<lambda>i. map (\<lambda>row. row ! i) p) [0..<c])"

section \<open>Commands and reachable states\<close>

text \<open>
  The events that reach the engine after \<^verbatim>\<open>start()\<close>: the interval calls \<^verbatim>\<open>tick\<close> as
  long as it is scheduled (after \<^verbatim>\<open>clearInterval\<close> it never fires again), and the key
  handler runs on every key press. Each runs to its end before the next. A state is
  reachable when a sequence of such events leads to it from \<^verbatim>\<open>start()\<close>.
\<close>

datatype command = Tick name | Key key

fun step :: "command \<Rightarrow> state \<Rightarrow> error + state" where
  "step (Tick k) s = (if loop s = Scheduled then tick k s else Inr s)"
| "step (Key e) s = onkeydown e s"

fun run :: "command list \<Rightarrow> state \<Rightarrow> error + state" where
  "run [] s = Inr s"
| "run (c # cs) s = (case step c s of Inl e \<Rightarrow> Inl e | Inr s' \<Rightarrow> run cs s')"

inductive reachable :: "state \<Rightarrow> bool" where
  started: "reachable (start k)"
| stepped: "reachable s \<Longrightarrow> step c s = Inr s' \<Longrightarrow> reachable s'"

text \<open>
  The invariant of the reachable states: the board is well formed, the piece is a
  rectangle with a cell, it is not above row 0, the score is not negative, and while the
  interval is scheduled the piece does not collide where it stands.
\<close>

definition state_ok :: "state \<Rightarrow> bool" where
  "state_ok s =
     (board_ok (board s) \<and> (\<exists>r c. 0 < r \<and> 0 < c \<and> rect (piece s) r c) \<and>
      0 \<le> py s \<and> 0 \<le> score s \<and>
      (loop s = Scheduled \<longrightarrow> collide (board s) (px s) (py s) (piece s) = Inr False))"

section \<open>Example states\<close>

text \<open>
  Example states: \<open>idle b\<close> is a running game with the board \<open>b\<close> and an O piece at the
  spawn position. \<open>stack_example\<close> has one block in row 18 and a full row 19.
\<close>

definition idle :: "board \<Rightarrow> state" where
  "idle b = \<lparr>board = b, piece = SHAPES O_shape, px = 4, py = 0, score = 0,
             loop = Scheduled, draws = 1, alerts = []\<rparr>"

definition stack_example :: board where
  "stack_example =
     replicate 18 empty_row @
     [Some (Num 1) # replicate 9 (Some (Num 0)), replicate 10 (Some (Num 1))]"

text \<open>
  \<open>topped\<close>: the state after \<^verbatim>\<open>start()\<close> and 99 ticks without any key, when every piece
  drawn was an O. Nine O pieces fill the columns 4 and 5 from row 19 up to row 2 and the
  tenth stands at the spawn position.
\<close>

definition stacked_row :: row where
  "stacked_row =
     replicate 4 (Some (Num 0)) @ replicate 2 (Some (Num 1)) @ replicate 4 (Some (Num 0))"

definition topped_board :: board where
  "topped_board = replicate 2 empty_row @ replicate 18 stacked_row"

definition topped :: state where
  "topped = (idle topped_board)\<lparr>draws := 100\<rparr>"

text \<open>The state in which \<open>topped\<close> ends when the next piece drawn is an L.\<close>

definition topped_over :: state where
  "topped_over =
     \<lparr>board = replicate 20 stacked_row, piece = SHAPES L_shape, px = 4, py = 0, score = 0,
      loop = Cleared, draws = 100, alerts = [0]\<rparr>"

text \<open>
  \<open>before_clear\<close>: four O pieces lie side by side in the columns 0 to 7 of the rows 18
  and 19 and a fifth has come down in the columns 8 and 9; \<open>two_rows_cmds\<close> are the
  keys and ticks that lead there from \<^verbatim>\<open>start()\<close>. The next tick locks the piece and
  clears two rows.
\<close>

definition two_rows_cmds :: "command list" where
  "two_rows_cmds =
     replicate 4 (Key ArrowLeft) @ replicate 19 (Tick O_shape) @
     replicate 2 (Key ArrowLeft) @ replicate 19 (Tick O_shape) @
     replicate 19 (Tick O_shape) @
     replicate 2 (Key ArrowRight) @ replicate 19 (Tick O_shape) @
     replicate 4 (Key ArrowRight) @ replicate 18 (Tick O_shape)"

definition before_clear :: state where
  "before_clear =
     \<lparr>board = replicate 18 empty_row @
              replicate 2 (replicate 8 (Some (Num 1)) @ replicate 2 (Some (Num 0))),
      piece = SHAPES O_shape, px = 8, py = 18, score = 0,
      loop = Scheduled, draws = 107, alerts = []\<rparr>"

text \<open>
  \<open>fixture\<close> and \<open>blocked\<close>: two I pieces lie in the columns 5 to 8 of the rows 0 and 1,
  on a tower of nine O pieces in the columns 6 and 7 beside an O piece in the columns 8
  and 9, and an L piece has come down in column 4 to the floor. In \<open>fixture\<close> an I piece
  in the columns 0 to 3 of row 19 was dropped first, so that the L piece completes row
  19. \<open>tower_cmds\<close> and \<open>fixture_cmds\<close> are the keys and ticks that lead there from
  \<^verbatim>\<open>start()\<close>; \<open>fixture_over\<close> and \<open>blocked_over\<close> are the states after the next tick
  when the piece drawn is an O.
\<close>

definition bar_row :: row where
  "bar_row = replicate 5 (Some (Num 0)) @ replicate 4 (Some (Num 1)) @ [Some (Num 0)]"

definition tower_row :: row where
  "tower_row =
     replicate 6 (Some (Num 0)) @ replicate 2 (Some (Num 1)) @ replicate 2 (Some (Num 0))"

definition base_row :: row where
  "base_row = replicate 6 (Some (Num 0)) @ replicate 4 (Some (Num 1))"

definition floor_row :: row where
  "floor_row =
     replicate 4 (Some (Num 1)) @ replicate 2 (Some (Num 0)) @ replicate 4 (Some (Num 1))"

definition tower_row_L :: row where
  "tower_row_L =
     replicate 4 (Some (Num 0)) @ [Some (Num 1), Some (Num 0)] @
     replicate 2 (Some (Num 1)) @ replicate 2 (Some (Num 0))"

definition base_row_L :: row where
  "base_row_L =
     replicate 4 (Some (Num 0)) @ [Some (Num 1), Some (Num 0)] @ replicate 4 (Some (Num 1))"

definition foot_row :: row where
  "foot_row = replicate 4 (Some (Num 0)) @ replicate 6 (Some (Num 1))"

definition tower_cmds :: "command list" where
  "tower_cmds =
     replicate 4 (Key ArrowRight) @ replicate 19 (Tick O_shape) @
     replicate 2 (Key ArrowRight) @ replicate 19 (Tick O_shape) @
     replicate 2 (Key ArrowRight) @ replicate 17 (Tick O_shape) @
     replicate 2 (Key ArrowRight) @ replicate 15 (Tick O_shape) @
     replicate 2 (Key ArrowRight) @ replicate 13 (Tick O_shape) @
     replicate 2 (Key ArrowRight) @ replicate 11 (Tick O_shape) @
     replicate 2 (Key ArrowRight) @ replicate 9 (Tick O_shape) @
     replicate 2 (Key ArrowRight) @ replicate 7 (Tick O_shape) @
     replicate 2 (Key ArrowRight) @ replicate 5 (Tick O_shape) @
     replicate 2 (Key ArrowRight) @ replicate 3 (Tick I_shape) @
     [Key ArrowRight, Tick I_shape, Tick I_shape] @
     [Key ArrowRight, Tick L_shape] @
     replicate 17 (Tick O_shape)"

definition fixture_cmds :: "command list" where
  "fixture_cmds = replicate 4 (Key ArrowLeft) @ replicate 20 (Tick O_shape) @ tower_cmds"

definition blocked :: state where
  "blocked =
     \<lparr>board = replicate 2 bar_row @ replicate 16 tower_row @ replicate 2 base_row,
      piece = SHAPES L_shape, px = 4, py = 17, score = 0,
      loop = Scheduled, draws = 163, alerts = []\<rparr>"

definition blocked_over :: state where
  "blocked_over =
     \<lparr>board = replicate 2 bar_row @ replicate 15 tower_row @
              [tower_row_L, base_row_L, foot_row],
      piece = SHAPES O_shape, px = 4, py = 0, score = 0,
      loop = Cleared, draws = 163, alerts = [0]\<rparr>"

definition fixture :: state where
  "fixture =
     \<lparr>board = replicate 2 bar_row @ replicate 16 tower_row @ [base_row, floor_row],
      piece = SHAPES L_shape, px = 4, py = 17, score = 0,
      loop = Scheduled, draws = 187, alerts = []\<rparr>"

definition fixture_over :: state where
  "fixture_over =
     \<lparr>board = empty_row # replicate 2 bar_row @ replicate 15 tower_row @
              [tower_row_L, base_row_L],
      piece = SHAPES O_shape, px = 4, py = 0, score = 10,
      loop = Cleared, draws = 187, alerts = [10]\<rparr>"

section \<open>What \<^verbatim>\<open>collide\<close> computes\<close>

lemma collide_cells_False:
  "collide_cells b x y vs = Inr False \<longleftrightarrow>
     (\<forall>c<length vs. truthy (vs ! c) \<longrightarrow> free b (x + int c) y)"
proof (induction vs arbitrary: x)
  case Nil
  show ?case by simp
next
  case (Cons v vs)
  have shift: "\<And>c. x + 1 + int c = x + int (Suc c)" by simp
  show ?case
    by (simp add: Cons.IH All_less_Suc2 shift free_def occupied_def del: of_nat_Suc split: option.splits)
qed

lemma collide_rows_False:
  "collide_rows b nx y rs = Inr False \<longleftrightarrow>
     (\<forall>r<length rs. \<forall>c<length (rs ! r). truthy (rs ! r ! c) \<longrightarrow> free b (nx + int c) (y + int r))"
proof (induction rs arbitrary: y)
  case Nil
  show ?case by simp
next
  case (Cons r rs)
  have shift: "\<And>k. y + 1 + int k = y + int (Suc k)" by simp
  have step: "collide_rows b nx y (r # rs) = Inr False \<longleftrightarrow>
      collide_cells b nx y r = Inr False \<and> collide_rows b nx (y + 1) rs = Inr False"
    by (auto split: sum.splits bool.splits)
  show ?case
    unfolding step
    by (simp add: Cons.IH All_less_Suc2 shift collide_cells_False del: of_nat_Suc)
qed

lemma collide_cells_Inl:
  "collide_cells b x y vs = Inl e \<Longrightarrow>
     \<exists>c<length vs. truthy (vs ! c) \<and> 0 \<le> x + int c \<and> x + int c < int COLS \<and> y < int ROWS \<and> row_at b y = None"
proof (induction vs arbitrary: x)
  case Nil
  then show ?case by simp
next
  case (Cons v vs)
  have shift: "\<And>c. x + 1 + int c = x + int (Suc c)" by simp
  show ?case
  proof (cases "collide_cells b (x + 1) y vs = Inl e")
    case True
    from Cons.IH[OF True] obtain c where "c < length vs" "truthy (vs ! c)" "0 \<le> x + 1 + int c"
      "x + 1 + int c < int COLS" "y < int ROWS" "row_at b y = None" by blast
    then show ?thesis
      by (intro exI[of _ "Suc c"]) (simp add: add.assoc)
  next
    case False
    with Cons.prems show ?thesis
      by (intro exI[of _ 0]) (auto split: if_splits option.splits)
  qed
qed

lemma collide_rows_Inl:
  "collide_rows b nx y rs = Inl e \<Longrightarrow>
     \<exists>r c. filled rs r c \<and> 0 \<le> nx + int c \<and> nx + int c < int COLS \<and> y + int r < int ROWS \<and> row_at b (y + int r) = None"
proof (induction rs arbitrary: y)
  case Nil
  then show ?case by simp
next
  case (Cons r rs)
  show ?case
  proof (cases "collide_cells b nx y r = Inl e")
    case True
    from collide_cells_Inl[OF True] obtain c where "c < length r" "truthy (r ! c)" "0 \<le> nx + int c"
      "nx + int c < int COLS" "y < int ROWS" "row_at b y = None" by blast
    then show ?thesis
      by (intro exI[of _ 0] exI[of _ c]) (simp add: filled_def)
  next
    case False
    with Cons.prems have "collide_rows b nx (y + 1) rs = Inl e"
      by (auto split: sum.splits bool.splits)
    from Cons.IH[OF this] obtain k c where "filled rs k c" "0 \<le> nx + int c" "nx + int c < int COLS"
      "y + 1 + int k < int ROWS" "row_at b (y + 1 + int k) = None" by blast
    then show ?thesis
      by (intro exI[of _ "Suc k"] exI[of _ c]) (simp add: filled_def add.assoc)
  qed
qed


lemma collide_False_iff:
  "collide b nx ny np = Inr False \<longleftrightarrow>
     (\<forall>r c. filled np r c \<longrightarrow> free b (nx + int c) (ny + int r))"
  unfolding collide_def collide_rows_False filled_def by blast

lemma collide_Inl:
  "collide b nx ny np = Inl e \<Longrightarrow>
     \<exists>r c. filled np r c \<and> 0 \<le> nx + int c \<and> nx + int c < int COLS \<and>
       ny + int r < int ROWS \<and> row_at b (ny + int r) = None"
  unfolding collide_def by (rule collide_rows_Inl)

lemma row_at_None: "row_at b y = None \<longleftrightarrow> y < 0 \<or> int (length b) \<le> y"
  by (auto simp: row_at_def)

lemma collide_total:
  assumes "length b = ROWS" and "\<forall>r c. filled np r c \<longrightarrow> 0 \<le> ny + int r"
  shows "collide b nx ny np = Inr (\<exists>r c. filled np r c \<and> \<not> free b (nx + int c) (ny + int r))"
proof (cases "collide b nx ny np")
  case (Inl e)
  from collide_Inl[OF Inl] assms show ?thesis
    by (auto simp: row_at_None)
next
  case (Inr v)
  then show ?thesis
    using collide_False_iff[of b nx ny np] by (cases v) auto
qed

lemma not_free:
  assumes "length b = ROWS" and "0 \<le> y"
  shows "\<not> free b x y \<longleftrightarrow> x < 0 \<or> int COLS \<le> x \<or> int ROWS \<le> y \<or> occupied b x y"
  using assms by (auto simp: free_def row_at_None occupied_def)

text \<open>
  Claim C1, amended. On a board of \<open>ROWS\<close> rows and for an anchor that puts no filled cell
  above row 0: \<^verbatim>\<open>collide\<close> returns true whenever a filled cell maps to \<open>x < 0\<close>,
  \<open>x \<ge> COLS\<close> or \<open>y \<ge> ROWS\<close>, whatever the board holds; and when every filled cell is
  within these bounds it returns true exactly when a filled cell lies on an occupied
  board cell.
\<close>

theorem collide_bounds_then_overlap:
  assumes "length b = ROWS" and "\<forall>r c. filled np r c \<longrightarrow> 0 \<le> ny + int r"
  shows "((\<exists>r c. filled np r c \<and>
             (nx + int c < 0 \<or> int COLS \<le> nx + int c \<or> int ROWS \<le> ny + int r))
           \<longrightarrow> collide b nx ny np = Inr True)
       \<and> ((\<forall>r c. filled np r c \<longrightarrow>
               0 \<le> nx + int c \<and> nx + int c < int COLS \<and> ny + int r < int ROWS)
           \<longrightarrow> collide b nx ny np =
                 Inr (\<exists>r c. filled np r c \<and> occupied b (nx + int c) (ny + int r)))"
proof -
  have nf: "\<And>r c. filled np r c \<Longrightarrow> \<not> free b (nx + int c) (ny + int r) \<longleftrightarrow>
      nx + int c < 0 \<or> int COLS \<le> nx + int c \<or> int ROWS \<le> ny + int r \<or>
      occupied b (nx + int c) (ny + int r)"
    using assms by (intro not_free) auto
  have res: "collide b nx ny np = Inr (\<exists>r c. filled np r c \<and> \<not> free b (nx + int c) (ny + int r))"
    by (rule collide_total[OF assms])
  show ?thesis
  proof (intro conjI impI)
    assume "\<exists>r c. filled np r c \<and>
             (nx + int c < 0 \<or> int COLS \<le> nx + int c \<or> int ROWS \<le> ny + int r)"
    then have "\<exists>r c. filled np r c \<and> \<not> free b (nx + int c) (ny + int r)"
      using nf by blast
    with res show "collide b nx ny np = Inr True" by simp
  next
    assume inb: "\<forall>r c. filled np r c \<longrightarrow>
               0 \<le> nx + int c \<and> nx + int c < int COLS \<and> ny + int r < int ROWS"
    have "(\<exists>r c. filled np r c \<and> \<not> free b (nx + int c) (ny + int r)) \<longleftrightarrow>
          (\<exists>r c. filled np r c \<and> occupied b (nx + int c) (ny + int r))"
      using nf inb by (metis not_less)
    with res show "collide b nx ny np =
                 Inr (\<exists>r c. filled np r c \<and> occupied b (nx + int c) (ny + int r))" by simp
  qed
qed

text \<open>
  Without the condition on row 0 the claim fails: with the anchor row \<open>-1\<close> the first
  filled cell reads \<^verbatim>\<open>board[-1][9]\<close>, which raises, before the cell at \<open>x = 10\<close> is seen.
\<close>

theorem collide_above_top_counterexample:
  "filled [[Num 1, Num 1]] 0 1 \<and> int COLS \<le> 9 + int 1 \<and>
   collide newBoard 9 (- 1) [[Num 1, Num 1]] = Inl TypeError"
  by (simp add: filled_def collide_def row_at_def COLS_def ROWS_def)

theorem collide_bounds_then_overlap_witness:
  "length newBoard = ROWS \<and>
   collide newBoard 8 0 (SHAPES I_shape) = Inr True \<and>
   collide newBoard 4 0 (SHAPES I_shape) =
     Inr (\<exists>r c. filled (SHAPES I_shape) r c \<and> occupied newBoard (4 + int c) (0 + int r))"
proof -
  have len: "length newBoard = ROWS"
    by (simp add: newBoard_def)
  have top: "\<forall>r c. filled (SHAPES I_shape) r c \<longrightarrow> 0 \<le> 0 + int r"
    by simp
  have out: "\<exists>r c. filled (SHAPES I_shape) r c \<and>
      (8 + int c < 0 \<or> int COLS \<le> 8 + int c \<or> int ROWS \<le> 0 + int r)"
    by (intro exI[of _ 0] exI[of _ 2]) (simp add: filled_def COLS_def)
  have inb: "\<forall>r c. filled (SHAPES I_shape) r c \<longrightarrow>
      0 \<le> 4 + int c \<and> 4 + int c < int COLS \<and> 0 + int r < int ROWS"
    by (auto simp: filled_def COLS_def ROWS_def)
  show ?thesis
    using len out inb collide_bounds_then_overlap[OF len top, of 8]
      collide_bounds_then_overlap[OF len top, of 4]
    by blast
qed

lemma collide_cells_True:
  "collide_cells b x y vs = Inr True \<Longrightarrow>
     \<exists>c<length vs. truthy (vs ! c) \<and>
       (x + int c < 0 \<or> int COLS \<le> x + int c \<or> int ROWS \<le> y \<or> occupied b (x + int c) y)"
proof (induction vs arbitrary: x)
  case Nil
  then show ?case by simp
next
  case (Cons v vs)
  show ?case
  proof (cases "collide_cells b (x + 1) y vs = Inr True")
    case True
    from Cons.IH[OF True] obtain c where "c < length vs" "truthy (vs ! c)"
      "x + 1 + int c < 0 \<or> int COLS \<le> x + 1 + int c \<or> int ROWS \<le> y \<or> occupied b (x + 1 + int c) y"
      by blast
    then show ?thesis
      by (intro exI[of _ "Suc c"]) (simp add: add.assoc)
  next
    case False
    with Cons.prems show ?thesis
      by (intro exI[of _ 0]) (auto simp: occupied_def split: if_splits option.splits)
  qed
qed

lemma collide_rows_True:
  "collide_rows b nx y rs = Inr True \<Longrightarrow>
     \<exists>r c. filled rs r c \<and>
       (nx + int c < 0 \<or> int COLS \<le> nx + int c \<or> int ROWS \<le> y + int r \<or>
        occupied b (nx + int c) (y + int r))"
proof (induction rs arbitrary: y)
  case Nil
  then show ?case by simp
next
  case (Cons r rs)
  show ?case
  proof (cases "collide_cells b nx y r = Inr True")
    case True
    from collide_cells_True[OF True] obtain c where "c < length r" "truthy (r ! c)"
      "nx + int c < 0 \<or> int COLS \<le> nx + int c \<or> int ROWS \<le> y \<or> occupied b (nx + int c) y"
      by blast
    then show ?thesis
      by (intro exI[of _ 0] exI[of _ c]) (simp add: filled_def)
  next
    case False
    with Cons.prems have "collide_rows b nx (y + 1) rs = Inr True"
      by (auto split: sum.splits bool.splits)
    from Cons.IH[OF this] obtain k c where "filled rs k c"
      "nx + int c < 0 \<or> int COLS \<le> nx + int c \<or> int ROWS \<le> y + 1 + int k \<or>
        occupied b (nx + int c) (y + 1 + int k)" by blast
    then show ?thesis
      by (intro exI[of _ "Suc k"] exI[of _ c]) (simp add: filled_def add.assoc)
  qed
qed

lemma collide_True:
  "collide b nx ny np = Inr True \<Longrightarrow>
     \<exists>r c. filled np r c \<and>
       (nx + int c < 0 \<or> int COLS \<le> nx + int c \<or> int ROWS \<le> ny + int r \<or>
        occupied b (nx + int c) (ny + int r))"
  unfolding collide_def by (rule collide_rows_True)

lemma free_iff:
  assumes "length b = ROWS"
  shows "free b x y \<longleftrightarrow>
    0 \<le> x \<and> x < int COLS \<and> 0 \<le> y \<and> y < int ROWS \<and> \<not> occupied b x y"
  using assms by (auto simp: free_def row_at_None)

text \<open>
  Claim C5, amended. On a board of \<open>ROWS\<close> rows: \<^verbatim>\<open>collide\<close> has no test for \<open>y < 0\<close>,
  so whenever it returns true some filled cell has \<open>x < 0\<close>, \<open>x \<ge> COLS\<close> or \<open>y \<ge> ROWS\<close>
  or lies on an occupied board cell, and a cell above row 0 is never by itself a
  collision. For every anchor that puts no filled cell above row 0, \<^verbatim>\<open>collide\<close> is a
  total function: it returns a boolean, false unless some filled cell is out of these
  bounds or lies on an occupied board cell, and true then.
\<close>

theorem collide_no_top_check:
  assumes "length b = ROWS"
  shows "(collide b nx ny np = Inr True \<longrightarrow>
            (\<exists>r c. filled np r c \<and>
               (nx + int c < 0 \<or> int COLS \<le> nx + int c \<or> int ROWS \<le> ny + int r \<or>
                occupied b (nx + int c) (ny + int r))))
       \<and> ((\<forall>r c. filled np r c \<longrightarrow> 0 \<le> ny + int r) \<longrightarrow>
            collide b nx ny np =
              Inr (\<exists>r c. filled np r c \<and>
                     (nx + int c < 0 \<or> int COLS \<le> nx + int c \<or> int ROWS \<le> ny + int r \<or>
                      occupied b (nx + int c) (ny + int r))))"
proof (rule conjI; rule impI)
  assume "collide b nx ny np = Inr True"
  then show "\<exists>r c. filled np r c \<and>
               (nx + int c < 0 \<or> int COLS \<le> nx + int c \<or> int ROWS \<le> ny + int r \<or>
                occupied b (nx + int c) (ny + int r))"
    by (rule collide_True)
next
  assume top: "\<forall>r c. filled np r c \<longrightarrow> 0 \<le> ny + int r"
  have "(\<exists>r c. filled np r c \<and> \<not> free b (nx + int c) (ny + int r)) \<longleftrightarrow>
        (\<exists>r c. filled np r c \<and>
           (nx + int c < 0 \<or> int COLS \<le> nx + int c \<or> int ROWS \<le> ny + int r \<or>
            occupied b (nx + int c) (ny + int r)))"
    using top not_free[OF assms] by blast
  with collide_total[OF assms top, of nx]
  show "collide b nx ny np =
          Inr (\<exists>r c. filled np r c \<and>
                 (nx + int c < 0 \<or> int COLS \<le> nx + int c \<or> int ROWS \<le> ny + int r \<or>
                  occupied b (nx + int c) (ny + int r)))"
    by simp
qed

theorem collide_no_top_check_witness:
  "length newBoard = ROWS \<and>
   collide newBoard (- 1) (- 1) [[Num 1]] = Inr True \<and>
   (\<exists>r c. filled [[Num 1]] r c \<and>
      (- 1 + int c < 0 \<or> int COLS \<le> - 1 + int c \<or> int ROWS \<le> - 1 + int r \<or>
       occupied newBoard (- 1 + int c) (- 1 + int r))) \<and>
   collide newBoard 4 0 (SHAPES T_shape) =
     Inr (\<exists>r c. filled (SHAPES T_shape) r c \<and>
            (4 + int c < 0 \<or> int COLS \<le> 4 + int c \<or> int ROWS \<le> 0 + int r \<or>
             occupied newBoard (4 + int c) (0 + int r)))"
proof -
  have len: "length newBoard = ROWS"
    by (simp add: newBoard_def)
  have hit: "collide newBoard (- 1) (- 1) [[Num 1]] = Inr True"
    by (simp add: collide_def)
  have top: "\<forall>r c. filled (SHAPES T_shape) r c \<longrightarrow> 0 \<le> 0 + int r"
    by simp
  show ?thesis
    using len hit top collide_no_top_check[OF len, of "- 1" "- 1" "[[Num 1]]"]
      collide_no_top_check[OF len, of 4 0 "SHAPES T_shape"]
    by blast
qed

text \<open>
  The claim as it stands fails for the upright I piece with its top cell in row \<open>-1\<close> of
  the empty board: no cell is out of the three bounds or on an occupied cell, and the
  call does not return false.
\<close>

theorem collide_raises_above_top_counterexample:
  "filled [[Num 1], [Num 1], [Num 1], [Num 1]] 0 0 \<and> - 1 + int 0 < 0 \<and>
   0 \<le> 4 + int 0 \<and> 4 + int 0 < int COLS \<and>
   collide newBoard 4 (- 1) [[Num 1], [Num 1], [Num 1], [Num 1]] = Inl TypeError"
  by (simp add: filled_def collide_def row_at_def COLS_def ROWS_def)

section \<open>Line clearing\<close>

lemma refill_eq:
  "refill b n = (replicate (ROWS - length b) (replicate COLS (Some (Num 0))) @ b, n + (ROWS - length b))"
proof (induction b n rule: refill.induct)
  case (1 b cleared)
  let ?e = "replicate COLS (Some (Num 0))"
  show ?case
  proof (cases "length b < ROWS")
    case True
    then obtain k where k: "ROWS - length b = Suc k" "ROWS - Suc (length b) = k"
      by (cases "ROWS - length b") auto
    have "refill b cleared = refill (?e # b) (cleared + 1)"
      using True by (subst refill.simps) simp
    also have "\<dots> = (replicate k ?e @ ?e # b, cleared + 1 + k)"
      using 1[OF True] k by simp
    also have "\<dots> = (replicate (Suc k) ?e @ b, cleared + Suc k)"
      by (simp add: replicate_app_Cons_same)
    finally show ?thesis
      unfolding k .
  next
    case False
    have "refill b cleared = (b, cleared)"
      using False by (subst refill.simps) simp
    with False show ?thesis by simp
  qed
qed

lemma keep_row_dense:
  "list_all (\<lambda>v. v \<noteq> None) r \<Longrightarrow> keep_row r \<longleftrightarrow> \<not> full_row r"
  unfolding keep_row_def full_row_def
  by (induction r) (auto split: option.splits)

lemma filter_keep_row:
  "list_all dense_row b \<Longrightarrow> filter keep_row b = filter (\<lambda>r. \<not> full_row r) b"
  by (induction b) (auto simp: dense_row_def keep_row_dense)

lemma length_filter_full:
  "length b = ROWS \<Longrightarrow> ROWS - length (filter (\<lambda>r. \<not> full_row r) b) = length (filter full_row b)"
  using sum_length_filter_compl[of full_row b] by simp

lemma clearLines_eq:
  assumes "board_ok (board s)"
  shows "clearLines s =
     s\<lparr>board := replicate (length (filter full_row (board s))) (replicate COLS (Some (Num 0))) @
                 filter (\<lambda>r. \<not> full_row r) (board s),
       score := score s + int (length (filter full_row (board s))) * 10\<rparr>"
proof -
  from assms have len: "length (board s) = ROWS" and dense: "list_all dense_row (board s)"
    by (simp_all add: board_ok_def)
  have kept: "filter keep_row (board s) = filter (\<lambda>r. \<not> full_row r) (board s)"
    by (rule filter_keep_row[OF dense])
  show ?thesis
    unfolding clearLines_def kept refill_eq length_filter_full[OF len] by simp
qed

lemma dense_empty: "dense_row (replicate COLS (Some (Num 0)))"
  by (simp add: dense_row_def list_all_iff)

text \<open>
  Claim C2. On a board of \<open>ROWS\<close> rows of width \<open>COLS\<close>, \<^verbatim>\<open>clearLines\<close> removes exactly
  the full rows, keeps the other rows in their order, puts one empty row of width \<open>COLS\<close>
  on top for each removed row, and so returns a board of \<open>ROWS\<close> rows of width \<open>COLS\<close>
  again; the score grows by 10 for each removed row.
\<close>

theorem clearLines_rows:
  assumes "board_ok (board s)"
  shows "board (clearLines s) =
           replicate (length (filter full_row (board s))) empty_row @
           filter (\<lambda>r. \<not> full_row r) (board s)
       \<and> length (board (clearLines s)) = ROWS
       \<and> (\<forall>r \<in> set (board (clearLines s)). length r = COLS)
       \<and> board_ok (board (clearLines s))
       \<and> score (clearLines s) = score s + 10 * int (length (filter full_row (board s)))"
proof -
  let ?k = "length (filter full_row (board s))"
  let ?b = "replicate ?k empty_row @ filter (\<lambda>r. \<not> full_row r) (board s)"
  have b: "board (clearLines s) = ?b" and sc: "score (clearLines s) = score s + 10 * int ?k"
    by (simp_all add: clearLines_eq[OF assms] empty_row_def)
  have len: "length ?b = ROWS"
    using assms sum_length_filter_compl[of full_row "board s"] by (simp add: board_ok_def)
  have dense: "list_all dense_row ?b"
    using assms dense_empty by (auto simp: board_ok_def list_all_iff empty_row_def)
  from b sc len dense show ?thesis
    by (auto simp: board_ok_def list_all_iff dense_row_def)
qed

lemma stack_example_ok: "board_ok stack_example"
  by code_simp

theorem clearLines_rows_witness:
  "board_ok (board (idle stack_example)) \<and>
   board (clearLines (idle stack_example)) =
     empty_row # replicate 18 empty_row @ [Some (Num 1) # replicate 9 (Some (Num 0))] \<and>
   score (clearLines (idle stack_example)) = 10"
proof -
  have bd: "board (idle stack_example) = stack_example" and sc: "score (idle stack_example) = 0"
    by (simp_all add: idle_def)
  have ok: "board_ok (board (idle stack_example))"
    unfolding bd by (rule stack_example_ok)
  have full: "filter full_row stack_example = [replicate 10 (Some (Num 1))]"
    by code_simp
  have rest: "filter (\<lambda>r. \<not> full_row r) stack_example =
      replicate 18 empty_row @ [Some (Num 1) # replicate 9 (Some (Num 0))]"
    by code_simp
  from clearLines_rows[OF ok]
  have "board (clearLines (idle stack_example)) =
           replicate (length (filter full_row stack_example)) empty_row @
           filter (\<lambda>r. \<not> full_row r) stack_example"
    and "score (clearLines (idle stack_example)) =
           0 + 10 * int (length (filter full_row stack_example))"
    unfolding bd sc by blast+
  then show ?thesis
    unfolding full rest using ok by simp
qed

section \<open>The tick\<close>

lemma tick_gravity:
  "collide (board s) (px s) (py s + 1) (piece s) = Inr False \<Longrightarrow>
   tick k s = Inr (draw (s\<lparr>py := py s + 1\<rparr>))"
  by (simp add: tick_def)

lemma tick_lock:
  assumes "collide (board s) (px s) (py s + 1) (piece s) = Inr True"
    and "tick k s = Inr s'"
  obtains b where "merge_rows (board s) (px s) (py s) (piece s) = Inr b"
    and "collide (board (clearLines (s\<lparr>board := b\<rparr>))) (int (COLS div 2) - 1) 0 (newPiece k) = Inr True
           \<and> s' = gameOver (resetPiece k (clearLines (s\<lparr>board := b\<rparr>)))
         \<or> collide (board (clearLines (s\<lparr>board := b\<rparr>))) (int (COLS div 2) - 1) 0 (newPiece k) = Inr False
           \<and> s' = draw (resetPiece k (clearLines (s\<lparr>board := b\<rparr>)))"
  using assms
  by (auto simp: tick_def merge_def resetPiece_def Let_def split: sum.splits bool.splits)

lemma clearLines_frame:
  "piece (clearLines s) = piece s" "px (clearLines s) = px s" "py (clearLines s) = py s"
  "loop (clearLines s) = loop s" "draws (clearLines s) = draws s" "alerts (clearLines s) = alerts s"
  by (simp_all add: clearLines_def split: prod.splits)

lemma clearLines_refilled:
  "board (clearLines s) =
     replicate (ROWS - length (filter keep_row (board s))) (replicate COLS (Some (Num 0))) @
     filter keep_row (board s)"
  "score (clearLines s) = score s + int (ROWS - length (filter keep_row (board s))) * 10"
  by (simp_all add: clearLines_def refill_eq)

lemma onkeydown_frame:
  assumes "onkeydown e s = Inr s'"
  shows "loop s' = loop s" and "score s' = score s" and "board s' = board s"
    and "draws s' = Suc (draws s)" and "alerts s' = alerts s"
  using assms
  by (cases e; auto simp: draw_def split: sum.splits if_splits)+

text \<open>
  Claim C6. When \<^verbatim>\<open>collide(px, py + 1)\<close> is false, \<^verbatim>\<open>tick\<close> adds 1 to \<open>py\<close> and leaves the
  board, the score, the piece and \<open>px\<close> as they were.
\<close>

theorem tick_moves_down:
  assumes "collide (board s) (px s) (py s + 1) (piece s) = Inr False"
  shows "\<exists>s'. tick k s = Inr s' \<and> py s' = py s + 1 \<and> board s' = board s \<and>
           score s' = score s \<and> piece s' = piece s \<and> px s' = px s \<and> loop s' = loop s"
  by (simp add: tick_gravity[OF assms] draw_def)

theorem tick_moves_down_witness:
  "collide (board (start O_shape)) (px (start O_shape)) (py (start O_shape) + 1)
     (piece (start O_shape)) = Inr False \<and>
   (\<exists>s'. tick T_shape (start O_shape) = Inr s' \<and> py s' = 1 \<and> board s' = newBoard \<and>
      score s' = 0 \<and> piece s' = SHAPES O_shape \<and> px s' = 4 \<and> loop s' = Scheduled)"
proof -
  have free: "collide (board (start O_shape)) (px (start O_shape)) (py (start O_shape) + 1)
     (piece (start O_shape)) = Inr False"
    by code_simp
  have st: "py (start O_shape) = 0" "board (start O_shape) = newBoard" "score (start O_shape) = 0"
    "piece (start O_shape) = SHAPES O_shape" "px (start O_shape) = 4" "loop (start O_shape) = Scheduled"
    by (simp_all add: start_def draw_def resetPiece_def newPiece_def COLS_def)
  show ?thesis
    using free tick_moves_down[OF free, of T_shape] unfolding st by simp
qed


lemma tick_not_lock:
  assumes "tick k s = Inr s'" and "collide (board s) (px s) (py s + 1) (piece s) \<noteq> Inr True"
  shows "s' = draw (s\<lparr>py := py s + 1\<rparr>)"
proof (cases "collide (board s) (px s) (py s + 1) (piece s)")
  case (Inl e)
  with assms(1) show ?thesis by (simp add: tick_def)
next
  case (Inr v)
  with assms(2) have "collide (board s) (px s) (py s + 1) (piece s) = Inr False" by simp
  with assms(1) show ?thesis by (simp add: tick_def)
qed

lemma tick_draws:
  assumes "tick k s = Inr s'" and "loop s = Scheduled"
  shows "draws s' = (if loop s' = Cleared then draws s else Suc (draws s))"
proof (cases "collide (board s) (px s) (py s + 1) (piece s) = Inr True")
  case True
  from tick_lock[OF True assms(1)] obtain b where
    "s' = gameOver (resetPiece k (clearLines (s\<lparr>board := b\<rparr>)))
     \<or> s' = draw (resetPiece k (clearLines (s\<lparr>board := b\<rparr>)))"
    by blast
  then show ?thesis
  proof
    assume "s' = gameOver (resetPiece k (clearLines (s\<lparr>board := b\<rparr>)))"
    then show ?thesis
      by (simp add: gameOver_def resetPiece_def clearLines_frame)
  next
    assume "s' = draw (resetPiece k (clearLines (s\<lparr>board := b\<rparr>)))"
    then show ?thesis
      using assms(2) by (simp add: draw_def resetPiece_def clearLines_frame)
  qed
next
  case False
  from tick_not_lock[OF assms(1) False] assms(2) show ?thesis
    by (simp add: draw_def)
qed

lemma tick_topped: "tick L_shape topped = Inr topped_over"
  by code_simp

lemma run_reachable: "reachable s \<Longrightarrow> run cs s = Inr s' \<Longrightarrow> reachable s'"
proof (induction cs arbitrary: s)
  case Nil
  then show ?case by simp
next
  case (Cons c cs)
  from Cons.prems(2) obtain s1 where s1: "step c s = Inr s1" and rest: "run cs s1 = Inr s'"
    by (auto split: sum.splits)
  from Cons.prems(1) s1 have "reachable s1"
    by (rule reachable.stepped)
  then show ?case
    using rest by (rule Cons.IH)
qed

lemma topped_run: "run (replicate 99 (Tick O_shape)) (start O_shape) = Inr topped"
  by code_simp

lemma topped_reachable: "reachable topped"
  using reachable.started topped_run by (rule run_reachable)

text \<open>
  Claim C9 fails on the code. In the reachable state \<open>topped\<close> the tick locks the piece,
  finds the fresh piece colliding and returns \<^verbatim>\<open>gameOver()\<close> without reaching \<^verbatim>\<open>draw()\<close>:
  the number of renders is still 100.
\<close>

theorem tick_game_over_without_draw:
  "reachable topped \<and> draws topped = 100 \<and> loop topped = Scheduled \<and>
   tick L_shape topped = Inr topped_over \<and> loop topped_over = Cleared \<and>
   draws topped_over = 100"
  using topped_reachable tick_topped
  by (simp add: topped_def topped_over_def idle_def)

section \<open>Rotation\<close>

lemma rotate_rect:
  assumes "rect p r c" and "0 < r"
  shows "rotate p = Inr (turned p c)"
proof -
  from assms obtain p0 ps where p: "p = p0 # ps"
    by (cases p) (auto simp: rect_def)
  from assms(1) have len: "\<And>row. row \<in> set p \<Longrightarrow> length row = c"
    by (simp add: rect_def list_all_iff)
  then have c: "length p0 = c"
    by (simp add: p)
  have same: "map (\<lambda>i. map (\<lambda>row. elem row i) p) [0..<c] = map (\<lambda>i. map (\<lambda>row. row ! i) p) [0..<c]"
    by (intro map_cong refl) (simp add: elem_def len)
  have "rotate p = Inr (rev (map (\<lambda>i. map (\<lambda>row. elem row i) p) [0..<length p0]))"
    by (simp add: rotate_def p)
  then show ?thesis
    unfolding c same turned_def .
qed

lemma length_turned: "length (turned p c) = c"
  by (simp add: turned_def)

lemma turned_nth: "i < c \<Longrightarrow> turned p c ! i = map (\<lambda>row. row ! (c - 1 - i)) p"
  by (simp add: turned_def rev_nth)

lemma rect_turned: "rect (turned p c) c (length p)"
  by (simp add: rect_def turned_def list_all_iff)

lemma turned_twice:
  assumes "rect p r c"
  shows "turned (turned p c) r = rev (map rev p)"
proof (rule nth_equalityI)
  show "length (turned (turned p c) r) = length (rev (map rev p))"
    using assms by (simp add: length_turned rect_def)
next
  fix i
  assume "i < length (turned (turned p c) r)"
  then have i: "i < r"
    by (simp add: length_turned)
  from assms have r: "length p = r" and len: "\<And>k. k < r \<Longrightarrow> length (p ! k) = c"
    by (simp_all add: rect_def list_all_length)
  have "turned (turned p c) r ! i = map (\<lambda>row. row ! (r - 1 - i)) (turned p c)"
    using i by (rule turned_nth)
  also have "\<dots> = rev (p ! (r - 1 - i))"
  proof (rule nth_equalityI)
    show "length (map (\<lambda>row. row ! (r - 1 - i)) (turned p c)) = length (rev (p ! (r - 1 - i)))"
      using i by (simp add: length_turned len)
  next
    fix j
    assume "j < length (map (\<lambda>row. row ! (r - 1 - i)) (turned p c))"
    then have j: "j < c"
      by (simp add: length_turned)
    with i show "map (\<lambda>row. row ! (r - 1 - i)) (turned p c) ! j = rev (p ! (r - 1 - i)) ! j"
      by (simp add: length_turned turned_nth r len rev_nth)
  qed
  also have "\<dots> = rev (map rev p) ! i"
    using i by (simp add: rev_nth r)
  finally show "turned (turned p c) r ! i = rev (map rev p) ! i" .
qed

lemma rect_half_turn: "rect p r c \<Longrightarrow> rect (rev (map rev p)) r c"
  by (simp add: rect_def list_all_iff)

lemma rotate_twice:
  assumes "rect p r c" and "0 < r" and "0 < c"
  shows "and_then (rotate p) rotate = Inr (rev (map rev p))"
proof -
  from assms(1) have r: "length p = r"
    by (simp add: rect_def)
  have "rect (turned p c) c r"
    using rect_turned[of p c] by (simp add: r)
  then have "rotate (turned p c) = Inr (turned (turned p c) r)"
    using assms(3) by (rule rotate_rect)
  then show ?thesis
    by (simp add: and_then_def rotate_rect[OF assms(1,2)] turned_twice[OF assms(1)])
qed

text \<open>
  What \<^verbatim>\<open>rotate\<close> does to a layout of \<open>r\<close> rows and \<open>c\<close> columns: the result has \<open>c\<close> rows
  and \<open>r\<close> columns, and the cell at \<open>[row][col]\<close> is found at \<open>[c - 1 - col][row]\<close>, a
  quarter turn against the clock.
\<close>

lemma rotate_cell:
  assumes "rect p r c" and "row < r" and "col < c"
  shows "\<exists>q. rotate p = Inr q \<and> rect q c r \<and> q ! (c - 1 - col) ! row = p ! row ! col"
proof -
  from assms(1) have r: "length p = r"
    by (simp add: rect_def)
  have "rotate p = Inr (turned p c)"
    using assms(1,2) by (intro rotate_rect[of p r c]) auto
  moreover have "rect (turned p c) c r"
    using rect_turned[of p c] by (simp add: r)
  moreover have "turned p c ! (c - 1 - col) ! row = p ! row ! col"
    using assms(2,3) by (simp add: turned_nth r)
  ultimately show ?thesis by blast
qed

text \<open>
  Claim C4, amended. For a rectangular layout with at least one row and at least one
  column, four calls of \<^verbatim>\<open>rotate\<close> return the layout they started from.
\<close>

theorem rotate_four_times:
  assumes "rect p r c" and "0 < r" and "0 < c"
  shows "and_then (and_then (and_then (rotate p) rotate) rotate) rotate = Inr p"
proof -
  let ?h = "rev (map rev p)"
  have first: "and_then (rotate p) rotate = Inr ?h"
    using assms by (rule rotate_twice)
  have "and_then (rotate ?h) rotate = Inr (rev (map rev ?h))"
    using rect_half_turn[OF assms(1)] assms(2,3) by (rule rotate_twice)
  then have second: "and_then (rotate ?h) rotate = Inr p"
    by (simp add: rev_map)
  have "and_then (and_then (and_then (rotate p) rotate) rotate) rotate =
        and_then (and_then (Inr ?h) rotate) rotate"
    by (simp only: first)
  also have "\<dots> = and_then (rotate ?h) rotate"
    by (simp add: and_then_def)
  finally show ?thesis
    using second by simp
qed

theorem rotate_four_times_witness:
  "rect (SHAPES L_shape) 3 2 \<and>
   and_then (and_then (and_then (rotate (SHAPES L_shape)) rotate) rotate) rotate =
     Inr (SHAPES L_shape)"
proof -
  have re: "rect (SHAPES L_shape) 3 2"
    by (simp add: rect_def)
  show ?thesis
    using re rotate_four_times[OF re] by simp
qed

text \<open>
  The claim fails without a row or without a column: \<^verbatim>\<open>rotate([])\<close> raises, and
  \<^verbatim>\<open>rotate([[]])\<close> is \<^verbatim>\<open>[]\<close>, on which the next call raises.
\<close>

theorem rotate_empty_counterexample:
  "rect [] 0 0 \<and> and_then (and_then (and_then (rotate []) rotate) rotate) rotate = Inl TypeError \<and>
   rect [[]] 1 0 \<and> rotate [[]] = Inr [] \<and>
   and_then (and_then (and_then (rotate [[]]) rotate) rotate) rotate = Inl TypeError"
  by (simp add: rect_def rotate_def and_then_def)

text \<open>
  Claim C7 fails on the code. The L piece has 3 rows and 2 columns and its cell
  \<open>[0][1]\<close> is 0; a quarter turn with the clock puts it at \<open>[1][3 - 1 - 0]\<close>, where the
  result of \<^verbatim>\<open>rotate\<close> has 1: the code turns the piece against the clock.
\<close>

theorem rotate_turns_against_the_clock:
  "rotate (SHAPES L_shape) = Inr [[Num 0, Num 0, Num 1], [Num 1, Num 1, Num 1]] \<and>
   SHAPES L_shape ! 0 ! 1 = Num 0 \<and>
   [[Num 0, Num 0, Num 1], [Num 1, Num 1, Num 1]] ! 1 ! (3 - 1 - 0) = Num 1"
  by (simp add: rotate_def elem_def)

section \<open>The invariant of the reachable states\<close>

lemma board_ok_update:
  assumes "board_ok b" and "0 \<le> y" and "y < int ROWS" and "0 \<le> x" and "x < int COLS"
  shows "\<exists>b'. set_cell b y x = Inr b' \<and> board_ok b'"
proof -
  from assms(1) have len: "length b = ROWS" and rows: "\<And>i. i < ROWS \<Longrightarrow> dense_row (b ! i)"
    by (simp_all add: board_ok_def list_all_length)
  let ?r = "b ! nat y"
  have y: "nat y < ROWS"
    using assms(2,3) by simp
  have r: "row_at b y = Some ?r"
    using assms(2,3) len by (simp add: row_at_def)
  have dr: "dense_row ?r"
    using y by (rule rows)
  have nx: "nat x < COLS"
    using assms(4,5) by linarith
  with dr have "nat x < length ?r"
    by (simp add: dense_row_def)
  then have w: "write_cell ?r x (Num 1) = ?r[nat x := Some (Num 1)]"
    using assms(4) by (simp add: write_cell_def)
  have dw: "dense_row (?r[nat x := Some (Num 1)])"
    using dr set_update_subset_insert[of ?r "nat x" "Some (Num 1)"]
    by (auto simp: dense_row_def list_all_iff)
  have "board_ok (b[nat y := ?r[nat x := Some (Num 1)]])"
    using assms(1) dw set_update_subset_insert[of b "nat y" "?r[nat x := Some (Num 1)]"]
    by (auto simp: board_ok_def list_all_iff)
  then show ?thesis
    by (simp add: set_cell_def r w)
qed

lemma merge_cells_ok:
  assumes "board_ok b" and "0 \<le> y" and "y < int ROWS"
    and "\<forall>c<length vs. truthy (vs ! c) \<longrightarrow> 0 \<le> x + int c \<and> x + int c < int COLS"
  shows "\<exists>b'. merge_cells b x y vs = Inr b' \<and> board_ok b'"
  using assms(1,4)
proof (induction vs arbitrary: b x)
  case Nil
  then show ?case by simp
next
  case (Cons v vs)
  have rest: "\<forall>c<length vs. truthy (vs ! c) \<longrightarrow> 0 \<le> x + 1 + int c \<and> x + 1 + int c < int COLS"
  proof (intro allI impI)
    fix c
    assume "c < length vs" and "truthy (vs ! c)"
    with Cons.prems(2)[rule_format, of "Suc c"]
    show "0 \<le> x + 1 + int c \<and> x + 1 + int c < int COLS"
      by (simp add: add.assoc)
  qed
  show ?case
  proof (cases "truthy v")
    case True
    with Cons.prems(2)[rule_format, of 0] have "0 \<le> x" "x < int COLS"
      by simp_all
    with board_ok_update[OF Cons.prems(1) assms(2,3)] obtain b1
      where b1: "set_cell b y x = Inr b1" "board_ok b1"
      by blast
    from Cons.IH[OF b1(2) rest] True b1(1) show ?thesis
      by simp
  next
    case False
    from Cons.IH[OF Cons.prems(1) rest] False show ?thesis
      by simp
  qed
qed

lemma merge_rows_ok:
  assumes "board_ok b" and "0 \<le> y"
    and "\<forall>r<length rs. \<forall>c<length (rs ! r). truthy (rs ! r ! c) \<longrightarrow>
           0 \<le> nx + int c \<and> nx + int c < int COLS \<and> y + int r < int ROWS"
  shows "\<exists>b'. merge_rows b nx y rs = Inr b' \<and> board_ok b'"
  using assms
proof (induction rs arbitrary: b y)
  case Nil
  then show ?case by simp
next
  case (Cons r rs)
  have rest: "\<forall>k<length rs. \<forall>c<length (rs ! k). truthy (rs ! k ! c) \<longrightarrow>
           0 \<le> nx + int c \<and> nx + int c < int COLS \<and> y + 1 + int k < int ROWS"
  proof (intro allI impI)
    fix k c
    assume "k < length rs" and "c < length (rs ! k)" and "truthy (rs ! k ! c)"
    with Cons.prems(3)[rule_format, of "Suc k" c]
    show "0 \<le> nx + int c \<and> nx + int c < int COLS \<and> y + 1 + int k < int ROWS"
      by (simp add: add.assoc)
  qed
  have "\<exists>b1. merge_cells b nx y r = Inr b1 \<and> board_ok b1"
  proof (cases "\<exists>c<length r. truthy (r ! c)")
    case True
    then obtain c where "c < length r" "truthy (r ! c)" by blast
    with Cons.prems(3)[rule_format, of 0 c] have y: "y < int ROWS"
      by simp
    have cols: "\<forall>c<length r. truthy (r ! c) \<longrightarrow> 0 \<le> nx + int c \<and> nx + int c < int COLS"
      using Cons.prems(3)[rule_format, of 0] by simp
    show ?thesis
      using Cons.prems(1,2) y cols by (rule merge_cells_ok)
  next
    case False
    then have "merge_cells b nx y r = Inr b"
      by (induction r arbitrary: nx) (auto simp: All_less_Suc2 Ex_less_Suc2)
    with Cons.prems(1) show ?thesis by simp
  qed
  then obtain b1 where b1: "merge_cells b nx y r = Inr b1" "board_ok b1"
    by blast
  have "0 \<le> y + 1"
    using Cons.prems(2) by simp
  from Cons.IH[OF b1(2) this rest] b1(1) show ?case
    by simp
qed

lemma merge_ok:
  assumes "board_ok (board s)" and "0 \<le> py s"
    and "collide (board s) (px s) (py s) (piece s) = Inr False"
  shows "\<exists>b. merge_rows (board s) (px s) (py s) (piece s) = Inr b \<and> board_ok b"
proof -
  from assms(3) have "\<forall>r c. filled (piece s) r c \<longrightarrow> free (board s) (px s + int c) (py s + int r)"
    by (simp add: collide_False_iff)
  then have "\<forall>r<length (piece s). \<forall>c<length (piece s ! r). truthy (piece s ! r ! c) \<longrightarrow>
           0 \<le> px s + int c \<and> px s + int c < int COLS \<and> py s + int r < int ROWS"
    by (simp add: filled_def free_def)
  with assms(1,2) show ?thesis
    by (rule merge_rows_ok)
qed


lemma newBoard_ok: "board_ok newBoard"
  by (simp add: newBoard_def board_ok_def dense_row_def list_all_iff)

lemma SHAPES_rect: "\<exists>r c. 0 < r \<and> 0 < c \<and> rect (SHAPES k) r c"
proof (cases k)
  case I_shape
  then have "rect (SHAPES k) 1 4" by (simp add: rect_def)
  then show ?thesis by (intro exI[of _ 1] exI[of _ 4]) simp
next
  case O_shape
  then have "rect (SHAPES k) 2 2" by (simp add: rect_def)
  then show ?thesis by (intro exI[of _ 2] exI[of _ 2]) simp
next
  case L_shape
  then have "rect (SHAPES k) 3 2" by (simp add: rect_def)
  then show ?thesis by (intro exI[of _ 3] exI[of _ 2]) simp
next
  case J_shape
  then have "rect (SHAPES k) 3 2" by (simp add: rect_def)
  then show ?thesis by (intro exI[of _ 3] exI[of _ 2]) simp
next
  case T_shape
  then have "rect (SHAPES k) 2 3" by (simp add: rect_def)
  then show ?thesis by (intro exI[of _ 2] exI[of _ 3]) simp
next
  case S_shape
  then have "rect (SHAPES k) 2 3" by (simp add: rect_def)
  then show ?thesis by (intro exI[of _ 2] exI[of _ 3]) simp
next
  case Z_shape
  then have "rect (SHAPES k) 2 3" by (simp add: rect_def)
  then show ?thesis by (intro exI[of _ 2] exI[of _ 3]) simp
qed

lemma spawn_free: "collide newBoard (int (COLS div 2) - 1) 0 (newPiece k) = Inr False"
  by (induct k; code_simp)

lemma start_ok: "state_ok (start k)"
  using newBoard_ok SHAPES_rect[of k] spawn_free[of k]
  by (simp add: state_ok_def start_def draw_def resetPiece_def newPiece_def)

lemma collide_returns:
  assumes "board_ok b" and "0 \<le> ny"
  shows "\<exists>v. collide b nx ny np = Inr v"
proof -
  from assms(1) have "length b = ROWS"
    by (simp add: board_ok_def)
  moreover from assms(2) have "\<forall>r c. filled np r c \<longrightarrow> 0 \<le> ny + int r"
    by simp
  ultimately show ?thesis
    using collide_total by blast
qed

lemma draw_ok: "state_ok (draw s) = state_ok s"
  by (simp add: state_ok_def draw_def)

lemma move_ok:
  assumes "state_ok s" and "0 \<le> py t" and "collide (board s) (px t) (py t) (piece s) = Inr hit"
    and "board t = board s" and "piece t = piece s" and "score t = score s"
  shows "state_ok (if hit then s else t)"
  using assms by (simp add: state_ok_def)

lemma turn_ok:
  assumes "state_ok s" and "rotate (piece s) = Inr np"
    and "collide (board s) (px s) (py s) np = Inr hit"
  shows "state_ok (if hit then s else s\<lparr>piece := np\<rparr>)"
proof -
  from assms(1) obtain r c where rc: "0 < r" "0 < c" "rect (piece s) r c"
    by (auto simp: state_ok_def)
  then have "rotate (piece s) = Inr (turned (piece s) c)"
    by (intro rotate_rect[of _ r c])
  with assms(2) have np: "np = turned (piece s) c"
    by simp
  have "rect np c r"
    using rect_turned[of "piece s" c] rc(3) by (simp add: np rect_def)
  with rc(1,2) have "\<exists>r c. 0 < r \<and> 0 < c \<and> rect np r c"
    by blast
  with assms(1,3) show ?thesis
    by (simp add: state_ok_def)
qed

lemma onkeydown_ok:
  assumes "state_ok s" and "onkeydown e s = Inr s'"
  shows "state_ok s'"
proof -
  from assms(1) have py: "0 \<le> py s"
    by (simp add: state_ok_def)
  show ?thesis
  proof (cases e)
    case ArrowLeft
    with assms(2) obtain hit where h: "collide (board s) (px s - 1) (py s) (piece s) = Inr hit"
      and s': "s' = draw (if hit then s else s\<lparr>px := px s - 1\<rparr>)"
      by (auto split: sum.splits)
    from move_ok[of s "s\<lparr>px := px s - 1\<rparr>" hit] assms(1) py h show ?thesis
      by (simp add: s' draw_ok)
  next
    case ArrowRight
    with assms(2) obtain hit where h: "collide (board s) (px s + 1) (py s) (piece s) = Inr hit"
      and s': "s' = draw (if hit then s else s\<lparr>px := px s + 1\<rparr>)"
      by (auto split: sum.splits)
    from move_ok[of s "s\<lparr>px := px s + 1\<rparr>" hit] assms(1) py h show ?thesis
      by (simp add: s' draw_ok)
  next
    case ArrowDown
    with assms(2) obtain hit where h: "collide (board s) (px s) (py s + 1) (piece s) = Inr hit"
      and s': "s' = draw (if hit then s else s\<lparr>py := py s + 1\<rparr>)"
      by (auto split: sum.splits)
    from move_ok[of s "s\<lparr>py := py s + 1\<rparr>" hit] assms(1) py h show ?thesis
      by (simp add: s' draw_ok)
  next
    case ArrowUp
    with assms(2) obtain np hit where r: "rotate (piece s) = Inr np"
      and h: "collide (board s) (px s) (py s) np = Inr hit"
      and s': "s' = draw (if hit then s else s\<lparr>piece := np\<rparr>)"
      by (auto split: sum.splits)
    from turn_ok[OF assms(1) r h] show ?thesis
      by (simp add: s' draw_ok)
  next
    case OtherKey
    with assms show ?thesis
      by (auto simp: draw_ok)
  qed
qed

lemma lock_ok:
  assumes "board_ok b" and "0 \<le> score s"
  shows "board_ok (board (clearLines (s\<lparr>board := b\<rparr>)))"
    and "score (clearLines (s\<lparr>board := b\<rparr>)) = score s + 10 * int (length (filter full_row b))"
proof -
  have ok: "board_ok (board (s\<lparr>board := b\<rparr>))"
    using assms(1) by simp
  have dense: "list_all dense_row (replicate (length (filter full_row b)) (replicate COLS (Some (Num 0))) @
                 filter (\<lambda>r. \<not> full_row r) b)"
    using assms(1) dense_empty by (auto simp: board_ok_def list_all_iff)
  have len: "length (replicate (length (filter full_row b)) (replicate COLS (Some (Num 0))) @
                 filter (\<lambda>r. \<not> full_row r) b) = ROWS"
    using assms(1) sum_length_filter_compl[of full_row b] by (simp add: board_ok_def)
  from dense len show "board_ok (board (clearLines (s\<lparr>board := b\<rparr>)))"
    unfolding clearLines_eq[OF ok] by (simp add: board_ok_def)
  show "score (clearLines (s\<lparr>board := b\<rparr>)) = score s + 10 * int (length (filter full_row b))"
    unfolding clearLines_eq[OF ok] by simp
qed

lemma tick_ok:
  assumes "state_ok s" and "loop s = Scheduled" and "tick k s = Inr s'"
  shows "state_ok s'"
proof (cases "collide (board s) (px s) (py s + 1) (piece s) = Inr True")
  case False
  from tick_not_lock[OF assms(3) False] have s': "s' = draw (s\<lparr>py := py s + 1\<rparr>)" .
  with assms(3) have "collide (board s) (px s) (py s + 1) (piece s) = Inr False"
    using False by (cases "collide (board s) (px s) (py s + 1) (piece s)") (auto simp: tick_def)
  with assms(1) show ?thesis
    by (simp add: s' draw_ok) (simp add: state_ok_def)
next
  case True
  from assms(1,2) have ok: "board_ok (board s)" and py: "0 \<le> py s" and sc: "0 \<le> score s"
    and here: "collide (board s) (px s) (py s) (piece s) = Inr False"
    by (simp_all add: state_ok_def)
  from tick_lock[OF True assms(3)] obtain b where b: "merge_rows (board s) (px s) (py s) (piece s) = Inr b"
    and alt: "collide (board (clearLines (s\<lparr>board := b\<rparr>))) (int (COLS div 2) - 1) 0 (newPiece k) = Inr True
           \<and> s' = gameOver (resetPiece k (clearLines (s\<lparr>board := b\<rparr>)))
         \<or> collide (board (clearLines (s\<lparr>board := b\<rparr>))) (int (COLS div 2) - 1) 0 (newPiece k) = Inr False
           \<and> s' = draw (resetPiece k (clearLines (s\<lparr>board := b\<rparr>)))"
    by blast
  from merge_ok[OF ok py here] b have bok: "board_ok b"
    by simp
  let ?u = "clearLines (s\<lparr>board := b\<rparr>)"
  have uok: "board_ok (board ?u)" and usc: "0 \<le> score ?u"
    using lock_ok[OF bok sc] sc by simp_all
  have rk: "\<exists>r c. 0 < r \<and> 0 < c \<and> rect (newPiece k) r c"
    using SHAPES_rect[of k] by (simp add: newPiece_def)
  from alt show ?thesis
  proof
    assume "collide (board ?u) (int (COLS div 2) - 1) 0 (newPiece k) = Inr True
           \<and> s' = gameOver (resetPiece k ?u)"
    with uok usc rk show ?thesis
      by (simp add: state_ok_def gameOver_def resetPiece_def)
  next
    assume "collide (board ?u) (int (COLS div 2) - 1) 0 (newPiece k) = Inr False
           \<and> s' = draw (resetPiece k ?u)"
    with uok usc rk show ?thesis
      by (simp add: state_ok_def draw_def resetPiece_def)
  qed
qed

lemma step_ok:
  assumes "state_ok s" and "step c s = Inr s'"
  shows "state_ok s'"
proof (cases c)
  case (Tick k)
  show ?thesis
  proof (cases "loop s = Scheduled")
    case True
    with assms Tick show ?thesis
      by (auto intro: tick_ok)
  next
    case False
    with assms Tick show ?thesis
      by simp
  qed
next
  case (Key e)
  with assms show ?thesis
    by (auto intro: onkeydown_ok)
qed

lemma reachable_ok: "reachable s \<Longrightarrow> state_ok s"
  by (induction rule: reachable.induct) (auto intro: start_ok step_ok)


text \<open>No command raises in a reachable state.\<close>

lemma tick_returns:
  assumes "state_ok s" and "loop s = Scheduled"
  shows "\<exists>s'. tick k s = Inr s'"
proof -
  from assms have ok: "board_ok (board s)" and py: "0 \<le> py s" and sc: "0 \<le> score s"
    and here: "collide (board s) (px s) (py s) (piece s) = Inr False"
    by (simp_all add: state_ok_def)
  have "0 \<le> py s + 1"
    using py by simp
  from collide_returns[OF ok this] obtain v
    where v: "collide (board s) (px s) (py s + 1) (piece s) = Inr v"
    by blast
  show ?thesis
  proof (cases v)
    case False
    with v show ?thesis
      by (simp add: tick_def)
  next
    case True
    from merge_ok[OF ok py here] obtain b
      where b: "merge_rows (board s) (px s) (py s) (piece s) = Inr b" and bok: "board_ok b"
      by blast
    let ?u = "resetPiece k (clearLines (s\<lparr>board := b\<rparr>))"
    have "board_ok (board ?u)"
      using lock_ok(1)[OF bok sc] by (simp add: resetPiece_def)
    moreover have "0 \<le> py ?u"
      by (simp add: resetPiece_def)
    ultimately obtain w where w: "collide (board ?u) (px ?u) (py ?u) (piece ?u) = Inr w"
      using collide_returns by blast
    show ?thesis
      using v True b w by (cases w) (simp_all add: tick_def merge_def Let_def)
  qed
qed

lemma onkeydown_returns:
  assumes "state_ok s"
  shows "\<exists>s'. onkeydown e s = Inr s'"
proof -
  from assms have ok: "board_ok (board s)" and py: "0 \<le> py s"
    by (simp_all add: state_ok_def)
  from assms obtain r c where rc: "0 < r" "0 < c" "rect (piece s) r c"
    by (auto simp: state_ok_def)
  have down: "0 \<le> py s + 1"
    using py by simp
  have rot: "rotate (piece s) = Inr (turned (piece s) c)"
    using rc by (intro rotate_rect[of _ r c])
  show ?thesis
  proof (cases e)
    case ArrowLeft
    with collide_returns[OF ok py, of "px s - 1" "piece s"] show ?thesis by auto
  next
    case ArrowRight
    with collide_returns[OF ok py, of "px s + 1" "piece s"] show ?thesis by auto
  next
    case ArrowDown
    with collide_returns[OF ok down, of "px s" "piece s"] show ?thesis by auto
  next
    case ArrowUp
    with collide_returns[OF ok py, of "px s" "turned (piece s) c"] rot show ?thesis by auto
  next
    case OtherKey
    then show ?thesis by simp
  qed
qed

lemma step_returns: "reachable s \<Longrightarrow> \<exists>s'. step c s = Inr s'"
  using reachable_ok[of s] tick_returns[of s] onkeydown_returns[of s]
  by (cases c) auto

text \<open>
  Claim C10. In every reachable state whose interval is still scheduled,
  \<^verbatim>\<open>collide(px, py)\<close> is false: every filled cell of the piece is within the left, right
  and bottom bounds and on no occupied board cell.
\<close>

theorem running_piece_is_free:
  assumes "reachable s" and "loop s = Scheduled"
  shows "collide (board s) (px s) (py s) (piece s) = Inr False
       \<and> (\<forall>r c. filled (piece s) r c \<longrightarrow>
             0 \<le> px s + int c \<and> px s + int c < int COLS \<and> py s + int r < int ROWS \<and>
             \<not> occupied (board s) (px s + int c) (py s + int r))"
proof -
  from reachable_ok[OF assms(1)] assms(2)
  have here: "collide (board s) (px s) (py s) (piece s) = Inr False"
    by (simp add: state_ok_def)
  then have "\<forall>r c. filled (piece s) r c \<longrightarrow> free (board s) (px s + int c) (py s + int r)"
    by (simp add: collide_False_iff)
  with here show ?thesis
    by (simp add: free_def)
qed

theorem running_piece_is_free_witness:
  "reachable topped \<and> loop topped = Scheduled \<and>
   collide (board topped) (px topped) (py topped) (piece topped) = Inr False"
proof -
  have sch: "loop topped = Scheduled"
    by (simp add: topped_def idle_def)
  show ?thesis
    using topped_reachable sch running_piece_is_free[OF topped_reachable sch] by blast
qed

text \<open>
  Claim C8. In a game the score is never negative and no command lowers it. It changes
  only in a tick that locks the piece and clears \<open>n \<ge> 1\<close> full rows of the merged
  board, and a tick that locks the piece adds exactly \<open>10 n\<close>.
\<close>

theorem score_grows_by_cleared_rows:
  assumes "reachable s" and "step c s = Inr s'"
  shows "0 \<le> score s \<and> score s \<le> score s'
       \<and> (score s' \<noteq> score s \<longrightarrow>
            (\<exists>k b. c = Tick k \<and> loop s = Scheduled \<and>
               collide (board s) (px s) (py s + 1) (piece s) = Inr True \<and>
               merge_rows (board s) (px s) (py s) (piece s) = Inr b \<and>
               1 \<le> length (filter full_row b) \<and>
               score s' = score s + 10 * int (length (filter full_row b))))
       \<and> (\<forall>k b. c = Tick k \<and> loop s = Scheduled \<and>
               collide (board s) (px s) (py s + 1) (piece s) = Inr True \<and>
               merge_rows (board s) (px s) (py s) (piece s) = Inr b \<longrightarrow>
               score s' = score s + 10 * int (length (filter full_row b)))"
proof -
  from reachable_ok[OF assms(1)] have inv: "state_ok s" .
  then have sc: "0 \<le> score s" and ok: "board_ok (board s)" and py: "0 \<le> py s"
    by (simp_all add: state_ok_def)
  have locked: "score s' = score s + 10 * int (length (filter full_row b))"
    if "c = Tick k" and sch: "loop s = Scheduled"
      and lock: "collide (board s) (px s) (py s + 1) (piece s) = Inr True"
      and b: "merge_rows (board s) (px s) (py s) (piece s) = Inr b" for k b
  proof -
    from that assms(2) have tk: "tick k s = Inr s'"
      by simp
    from inv sch have "collide (board s) (px s) (py s) (piece s) = Inr False"
      by (simp add: state_ok_def)
    from merge_ok[OF ok py this] b have bok: "board_ok b"
      by simp
    from tick_lock[OF lock tk] b have
      "s' = gameOver (resetPiece k (clearLines (s\<lparr>board := b\<rparr>)))
       \<or> s' = draw (resetPiece k (clearLines (s\<lparr>board := b\<rparr>)))"
      by auto
    then have "score s' = score (clearLines (s\<lparr>board := b\<rparr>))"
      by (auto simp: gameOver_def draw_def resetPiece_def)
    with lock_ok(2)[OF bok sc] show ?thesis
      by simp
  qed
  have other: "score s' = score s"
    if "\<not> (\<exists>k. c = Tick k \<and> loop s = Scheduled \<and>
               collide (board s) (px s) (py s + 1) (piece s) = Inr True)"
  proof (cases c)
    case (Key e)
    with assms(2) show ?thesis
      by (auto dest: onkeydown_frame(2))
  next
    case (Tick k)
    show ?thesis
    proof (cases "loop s = Scheduled")
      case False
      with assms(2) Tick show ?thesis by simp
    next
      case True
      with that Tick have "collide (board s) (px s) (py s + 1) (piece s) \<noteq> Inr True"
        by simp
      moreover from assms(2) Tick True have "tick k s = Inr s'"
        by simp
      ultimately have "s' = draw (s\<lparr>py := py s + 1\<rparr>)"
        by (intro tick_not_lock)
      then show ?thesis
        by (simp add: draw_def)
    qed
  qed
  show ?thesis
  proof (cases "\<exists>k. c = Tick k \<and> loop s = Scheduled \<and>
               collide (board s) (px s) (py s + 1) (piece s) = Inr True")
    case False
    from other[OF False] False sc show ?thesis
      by auto
  next
    case True
    then obtain k where k: "c = Tick k" "loop s = Scheduled"
      "collide (board s) (px s) (py s + 1) (piece s) = Inr True"
      by blast
    from inv k(2) have "collide (board s) (px s) (py s) (piece s) = Inr False"
      by (simp add: state_ok_def)
    from merge_ok[OF ok py this] obtain b
      where b: "merge_rows (board s) (px s) (py s) (piece s) = Inr b"
      by blast
    from locked[OF k b] have eq: "score s' = score s + 10 * int (length (filter full_row b))" .
    have "score s' \<noteq> score s \<longrightarrow> 1 \<le> length (filter full_row b)"
      using eq by (cases "length (filter full_row b)") auto
    with sc eq k b locked show ?thesis
      by auto
  qed
qed

lemma before_clear_run: "run two_rows_cmds (start O_shape) = Inr before_clear"
  by code_simp

lemma before_clear_reachable: "reachable before_clear"
  using reachable.started before_clear_run by (rule run_reachable)

lemma before_clear_tick:
  "step (Tick O_shape) before_clear =
     Inr \<lparr>board = newBoard, piece = SHAPES O_shape, px = 4, py = 0, score = 20,
          loop = Scheduled, draws = 108, alerts = []\<rparr>"
  by code_simp

theorem score_grows_by_cleared_rows_witness:
  "reachable before_clear \<and> score before_clear = 0 \<and>
   (\<exists>s'. step (Tick O_shape) before_clear = Inr s' \<and> score s' = 20 \<and>
      (\<exists>b. merge_rows (board before_clear) (px before_clear) (py before_clear)
              (piece before_clear) = Inr b \<and>
           1 \<le> length (filter full_row b) \<and>
           score s' = score before_clear + 10 * int (length (filter full_row b))))"
proof -
  have z: "score before_clear = 0"
    by (simp add: before_clear_def)
  from score_grows_by_cleared_rows[OF before_clear_reachable before_clear_tick]
  show ?thesis
    using before_clear_reachable before_clear_tick z by auto
qed

section \<open>The tick that ends the game\<close>

lemma blocked_run: "run tower_cmds (start O_shape) = Inr blocked"
  by code_simp

lemma blocked_reachable: "reachable blocked"
  using reachable.started blocked_run by (rule run_reachable)

lemma blocked_tick: "tick O_shape blocked = Inr blocked_over"
  by code_simp

lemma fixture_run: "run fixture_cmds (start I_shape) = Inr fixture"
  by code_simp

lemma fixture_reachable: "reachable fixture"
  using reachable.started fixture_run by (rule run_reachable)

lemma fixture_tick: "tick O_shape fixture = Inr fixture_over"
  by code_simp

text \<open>
  Claim C3, amended. A command takes a running game to the cleared interval only when
  it is a tick in which the piece locks and the fresh piece collides at its spawn
  position. In a running game with an occupied cell in row 0 before the tick, a tick in
  which the piece locks and the fresh piece collides at its spawn position ends the game
  and adds 10 to the score for each full row that the lock clears: the score is left as
  it was before the tick when the lock completes no row.
\<close>

theorem game_over_by_spawn_collision:
  "(loop s = Scheduled \<and> step c s = Inr s' \<and> loop s' = Cleared \<longrightarrow>
      (\<exists>k. c = Tick k \<and> collide (board s) (px s) (py s + 1) (piece s) = Inr True \<and>
         piece s' = newPiece k \<and> px s' = int (COLS div 2) - 1 \<and> py s' = 0 \<and>
         collide (board s') (px s') (py s') (piece s') = Inr True))
   \<and> (reachable t \<and> loop t = Scheduled \<and> (\<exists>x. occupied (board t) x 0) \<and>
       tick k' t = Inr t' \<and> collide (board t) (px t) (py t + 1) (piece t) = Inr True \<and>
       collide (board t') (int (COLS div 2) - 1) 0 (newPiece k') = Inr True
       \<longrightarrow> loop t' = Cleared \<and>
           (\<exists>b. merge_rows (board t) (px t) (py t) (piece t) = Inr b \<and>
              score t' = score t + 10 * int (length (filter full_row b)) \<and>
              (filter full_row b = [] \<longrightarrow> score t' = score t)))"
proof (rule conjI; rule impI)
  assume "loop s = Scheduled \<and> step c s = Inr s' \<and> loop s' = Cleared"
  then have sch: "loop s = Scheduled" and st: "step c s = Inr s'" and cl: "loop s' = Cleared"
    by simp_all
  show "\<exists>k. c = Tick k \<and> collide (board s) (px s) (py s + 1) (piece s) = Inr True \<and>
         piece s' = newPiece k \<and> px s' = int (COLS div 2) - 1 \<and> py s' = 0 \<and>
         collide (board s') (px s') (py s') (piece s') = Inr True"
  proof (cases c)
    case (Key e)
    with st have "loop s' = loop s"
      by (auto dest: onkeydown_frame(1))
    with sch cl have False by simp
    then show ?thesis ..
  next
    case (Tick k)
    with st sch have tk: "tick k s = Inr s'" by simp
    have lock: "collide (board s) (px s) (py s + 1) (piece s) = Inr True"
    proof (rule ccontr)
      assume "collide (board s) (px s) (py s + 1) (piece s) \<noteq> Inr True"
      with tk have "s' = draw (s\<lparr>py := py s + 1\<rparr>)"
        by (rule tick_not_lock)
      then have "loop s' = loop s"
        by (simp add: draw_def)
      with sch cl show False by simp
    qed
    from tick_lock[OF lock tk] obtain b where
      alt: "collide (board (clearLines (s\<lparr>board := b\<rparr>))) (int (COLS div 2) - 1) 0 (newPiece k) = Inr True
             \<and> s' = gameOver (resetPiece k (clearLines (s\<lparr>board := b\<rparr>)))
           \<or> s' = draw (resetPiece k (clearLines (s\<lparr>board := b\<rparr>)))"
      by blast
    have "s' \<noteq> draw (resetPiece k (clearLines (s\<lparr>board := b\<rparr>)))"
      using sch cl by (auto simp: draw_def resetPiece_def clearLines_frame)
    with alt have
      hit: "collide (board (clearLines (s\<lparr>board := b\<rparr>))) (int (COLS div 2) - 1) 0 (newPiece k) = Inr True"
      and over: "s' = gameOver (resetPiece k (clearLines (s\<lparr>board := b\<rparr>)))"
      by blast+
    from over have "piece s' = newPiece k" "px s' = int (COLS div 2) - 1" "py s' = 0"
      "board s' = board (clearLines (s\<lparr>board := b\<rparr>))"
      by (simp_all add: gameOver_def resetPiece_def)
    with hit Tick lock show ?thesis by simp
  qed
next
  assume "reachable t \<and> loop t = Scheduled \<and> (\<exists>x. occupied (board t) x 0) \<and>
       tick k' t = Inr t' \<and> collide (board t) (px t) (py t + 1) (piece t) = Inr True \<and>
       collide (board t') (int (COLS div 2) - 1) 0 (newPiece k') = Inr True"
  then have re: "reachable t" and sch: "loop t = Scheduled" and tk: "tick k' t = Inr t'"
    and lock: "collide (board t) (px t) (py t + 1) (piece t) = Inr True"
    and hit: "collide (board t') (int (COLS div 2) - 1) 0 (newPiece k') = Inr True"
    by simp_all
  from reachable_ok[OF re] sch have ok: "board_ok (board t)" and py: "0 \<le> py t"
    and sc: "0 \<le> score t" and here: "collide (board t) (px t) (py t) (piece t) = Inr False"
    by (simp_all add: state_ok_def)
  from tick_lock[OF lock tk] obtain b where b: "merge_rows (board t) (px t) (py t) (piece t) = Inr b"
    and alt: "collide (board (clearLines (t\<lparr>board := b\<rparr>))) (int (COLS div 2) - 1) 0 (newPiece k') = Inr True
           \<and> t' = gameOver (resetPiece k' (clearLines (t\<lparr>board := b\<rparr>)))
         \<or> collide (board (clearLines (t\<lparr>board := b\<rparr>))) (int (COLS div 2) - 1) 0 (newPiece k') = Inr False
           \<and> t' = draw (resetPiece k' (clearLines (t\<lparr>board := b\<rparr>)))"
    by blast
  let ?u = "clearLines (t\<lparr>board := b\<rparr>)"
  from alt have bd: "board t' = board ?u"
    by (auto simp: gameOver_def draw_def resetPiece_def)
  from alt hit have over: "t' = gameOver (resetPiece k' ?u)"
    unfolding bd by auto
  from merge_ok[OF ok py here] b have bok: "board_ok b"
    by simp
  have "score ?u = score t + 10 * int (length (filter full_row b))"
    by (rule lock_ok(2)[OF bok sc])
  with over have "loop t' = Cleared"
    and "score t' = score t + 10 * int (length (filter full_row b))"
    by (simp_all add: gameOver_def resetPiece_def)
  with b show "loop t' = Cleared \<and>
           (\<exists>b. merge_rows (board t) (px t) (py t) (piece t) = Inr b \<and>
              score t' = score t + 10 * int (length (filter full_row b)) \<and>
              (filter full_row b = [] \<longrightarrow> score t' = score t))"
    by auto
qed

theorem game_over_by_spawn_collision_witness:
  "reachable blocked \<and> loop blocked = Scheduled \<and> occupied (board blocked) 5 0 \<and>
   step (Tick O_shape) blocked = Inr blocked_over \<and>
   collide (board blocked) (px blocked) (py blocked + 1) (piece blocked) = Inr True \<and>
   collide (board blocked_over) (int (COLS div 2) - 1) 0 (newPiece O_shape) = Inr True \<and>
   loop blocked_over = Cleared \<and>
   (\<exists>b. merge_rows (board blocked) (px blocked) (py blocked) (piece blocked) = Inr b \<and>
      filter full_row b = [] \<and> score blocked_over = score blocked) \<and>
   piece blocked_over = newPiece O_shape \<and> px blocked_over = 4 \<and> py blocked_over = 0"
proof -
  have sch: "loop blocked = Scheduled"
    by (simp add: blocked_def)
  have st: "step (Tick O_shape) blocked = Inr blocked_over"
    using sch by (simp add: blocked_tick)
  have oc: "occupied (board blocked) 5 0"
    by code_simp
  have lock: "collide (board blocked) (px blocked) (py blocked + 1) (piece blocked) = Inr True"
    by code_simp
  have hit: "collide (board blocked_over) (int (COLS div 2) - 1) 0 (newPiece O_shape) = Inr True"
    by code_simp
  have cl: "loop blocked_over = Cleared"
    by (simp add: blocked_over_def)
  have none: "\<And>b. merge_rows (board blocked) (px blocked) (py blocked) (piece blocked) = Inr b
      \<Longrightarrow> filter full_row b = []"
  proof -
    fix b
    assume "merge_rows (board blocked) (px blocked) (py blocked) (piece blocked) = Inr b"
    moreover have "merge_rows (board blocked) (px blocked) (py blocked) (piece blocked) =
        Inr (board blocked_over)"
      by code_simp
    ultimately have "b = board blocked_over"
      by simp
    moreover have "filter full_row (board blocked_over) = []"
      by code_simp
    ultimately show "filter full_row b = []"
      by simp
  qed
  have mid: "int (COLS div 2) - 1 = 4"
    by (simp add: COLS_def)
  from game_over_by_spawn_collision[of blocked "Tick O_shape" blocked_over blocked O_shape blocked_over]
    blocked_reachable sch st oc lock hit cl blocked_tick
  have "(\<exists>k. Tick O_shape = Tick k \<and> piece blocked_over = newPiece k \<and>
          px blocked_over = int (COLS div 2) - 1 \<and> py blocked_over = 0)"
    and "\<exists>b. merge_rows (board blocked) (px blocked) (py blocked) (piece blocked) = Inr b \<and>
              score blocked_over = score blocked + 10 * int (length (filter full_row b)) \<and>
              (filter full_row b = [] \<longrightarrow> score blocked_over = score blocked)"
    by blast+
  with none blocked_reachable sch st oc lock hit cl show ?thesis
    unfolding mid by auto
qed

text \<open>
  The claim as it stands fails in \<open>fixture\<close>, a reachable state with occupied cells in
  row 0: the tick locks the L piece, which completes row 19, the fresh O piece collides
  at its spawn position with the cell that came down to row 1, and the game ends with
  the score 10 instead of 0.
\<close>

theorem game_over_after_clear_counterexample:
  "reachable fixture \<and> loop fixture = Scheduled \<and> occupied (board fixture) 5 0 \<and>
   score fixture = 0 \<and> tick O_shape fixture = Inr fixture_over \<and>
   loop fixture_over = Cleared \<and>
   collide (board fixture_over) (px fixture_over) (py fixture_over) (piece fixture_over) = Inr True \<and>
   px fixture_over = 4 \<and> py fixture_over = 0 \<and> score fixture_over = 10"
proof -
  have "occupied (board fixture) 5 0"
    by code_simp
  moreover have "collide (board fixture_over) (px fixture_over) (py fixture_over)
      (piece fixture_over) = Inr True"
    by code_simp
  ultimately show ?thesis
    using fixture_reachable fixture_tick
    by (simp add: fixture_def fixture_over_def)
qed

end
